theory Spec2Isabelle
  imports Main "HOL-Library.Sublist"
begin

section \<open>Characters and strings\<close>

text \<open>
  A Python \<open>str\<close> is modelled as a \<open>string\<close>, and a character as one of the 256
  code points U+0000 .. U+00FF, read through its code \<open>char_code\<close>; strings with
  code points above U+00FF are outside the model. The character predicates below are the
  ones the interpreter applies to these code points: \<open>py_isspace\<close> is
  \<open>str.isspace\<close> (used by \<open>strip\<close>, \<open>lstrip\<close> and the
  regular-expression class \<open>\s\<close>), \<open>py_isword\<close> is the class \<open>\w\<close> that
  decides \<open>\b\<close>, and \<open>py_lower\<close> is \<open>str.lower\<close>.
\<close>

definition newline :: char where
  "newline = CHR 0x0A"

definition dquote :: char where
  "dquote = CHR 0x22"

definition squote :: char where
  "squote = CHR 0x27"

definition char_code :: "char \<Rightarrow> nat" where
  "char_code c = of_char c"

definition in_range :: "char \<Rightarrow> char \<Rightarrow> char \<Rightarrow> bool" where
  "in_range lo hi c = (char_code lo \<le> char_code c \<and> char_code c \<le> char_code hi)"

definition py_isspace :: "char \<Rightarrow> bool" where
  "py_isspace c =
     (let n = char_code c
      in (9 \<le> n \<and> n \<le> 13) \<or> (28 \<le> n \<and> n \<le> 32) \<or> n = 133 \<or> n = 160)"

definition is_digit :: "char \<Rightarrow> bool" where
  "is_digit c = in_range CHR ''0'' CHR ''9'' c"

definition is_upper :: "char \<Rightarrow> bool" where
  "is_upper c = in_range CHR ''A'' CHR ''Z'' c"

definition is_lower :: "char \<Rightarrow> bool" where
  "is_lower c = in_range CHR ''a'' CHR ''z'' c"

definition is_alnum :: "char \<Rightarrow> bool" where
  "is_alnum c = (is_upper c \<or> is_lower c \<or> is_digit c)"

definition py_isword :: "char \<Rightarrow> bool" where
  "py_isword c =
     (let n = char_code c
      in is_alnum c \<or> c = CHR ''_'' \<or> n = 170 \<or> n = 178 \<or> n = 179 \<or> n = 181 \<or>
         n = 185 \<or> n = 186 \<or> (188 \<le> n \<and> n \<le> 190) \<or>
         (192 \<le> n \<and> n \<le> 214) \<or> (216 \<le> n \<and> n \<le> 246) \<or> 248 \<le> n)"

definition py_lower :: "char \<Rightarrow> char" where
  "py_lower c =
     (let n = char_code c
      in if (65 \<le> n \<and> n \<le> 90) \<or> (192 \<le> n \<and> n \<le> 222 \<and> n \<noteq> 215)
         then char_of (n + 32) else c)"

definition lower :: "string \<Rightarrow> string" where
  "lower s = map py_lower s"

definition lstrip :: "string \<Rightarrow> string" where
  "lstrip s = dropWhile py_isspace s"

definition rstrip :: "string \<Rightarrow> string" where
  "rstrip s = rev (dropWhile py_isspace (rev s))"

definition strip :: "string \<Rightarrow> string" where
  "strip s = rstrip (lstrip s)"

text \<open>\<open>s.strip(chars)\<close>: every leading and trailing character that is in \<open>chars\<close> goes.\<close>

definition strip_chars :: "string \<Rightarrow> string \<Rightarrow> string" where
  "strip_chars chars s =
     rev (dropWhile (\<lambda>c. c \<in> set chars) (rev (dropWhile (\<lambda>c. c \<in> set chars) s)))"

definition startswith :: "string \<Rightarrow> string \<Rightarrow> bool" where
  "startswith s p = prefix p s"

definition endswith :: "string \<Rightarrow> string \<Rightarrow> bool" where
  "endswith s p = suffix p s"

section \<open>Regular expressions decided by \<open>re.search\<close>\<close>

text \<open>
  The patterns of the rule tables are sequences of literals, anchors, word boundaries
  and repeated character classes. \<open>re_at\<close> decides whether such a sequence matches at the
  current position, where \<open>prev\<close> is the character before the position (\<open>None\<close> at
  the start of the string). Only the truth of \<open>re.search\<close> is used by the program, so
  a repetition may try its admissible counts in any order.
  \<^item> \<open>Bol\<close> is \<open>^\<close> (no MULTILINE flag: the start of the string only);
  \<^item> \<open>Eol\<close> is \<open>$\<close>: the end of the string, or just before a newline that ends it;
  \<^item> \<open>Wordb\<close> is \<open>\b\<close>;
  \<^item> \<open>Rep P lo hi\<close> is a character class repeated \<open>{lo,hi}\<close>, \<open>hi = None\<close> for no
    upper bound.
\<close>

datatype re_item =
    Bol
  | Eol
  | Wordb
  | Lit string
  | Rep "char \<Rightarrow> bool" nat "nat option"

definition word_at :: "char option \<Rightarrow> bool" where
  "word_at c = (case c of None \<Rightarrow> False | Some x \<Rightarrow> py_isword x)"

definition next_char :: "string \<Rightarrow> char option" where
  "next_char s = (case s of [] \<Rightarrow> None | c # _ \<Rightarrow> Some c)"

definition prev_after :: "char option \<Rightarrow> string \<Rightarrow> char option" where
  "prev_after prev consumed = (if consumed = [] then prev else Some (last consumed))"

fun re_at :: "re_item list \<Rightarrow> char option \<Rightarrow> string \<Rightarrow> bool" where
  "re_at [] prev s = True"
| "re_at (Bol # its) prev s = (prev = None \<and> re_at its prev s)"
| "re_at (Eol # its) prev s = ((s = [] \<or> s = [newline]) \<and> re_at its prev s)"
| "re_at (Wordb # its) prev s =
     (word_at prev \<noteq> word_at (next_char s) \<and> re_at its prev s)"
| "re_at (Lit l # its) prev s =
     (prefix l s \<and> re_at its (prev_after prev l) (drop (length l) s))"
| "re_at (Rep P lo hi # its) prev s =
     (let n = length (takeWhile P s);
          m = (case hi of None \<Rightarrow> n | Some h \<Rightarrow> min h n)
      in list_ex (\<lambda>k. re_at its (prev_after prev (take k s)) (drop k s)) [lo ..< Suc m])"

fun search_from :: "re_item list \<Rightarrow> char option \<Rightarrow> string \<Rightarrow> bool" where
  "search_from its prev [] = re_at its prev []"
| "search_from its prev (c # s) = (re_at its prev (c # s) \<or> search_from its (Some c) s)"

definition re_search :: "re_item list \<Rightarrow> string \<Rightarrow> bool" where
  "re_search its s = search_from its None s"

section \<open>The rule tables of \<open>TOMLRedactor\<close>\<close>

definition SENSITIVE_PATTERNS :: "string set" where
  "SENSITIVE_PATTERNS =
     {''password'', ''passwd'', ''pwd'',
      ''key'', ''apikey'', ''api_key'', ''secret'',
      ''auth_token'', ''access_token'', ''refresh_token'', ''bearer_token'',
      ''credential'', ''credentials'',
      ''key_password'',
      ''moesifkey'', ''embedding_endpoint_key''}"

definition TOKEN_PATTERNS :: "re_item list list" where
  "TOKEN_PATTERNS =
     [[Wordb, Lit ''token'', Wordb],
      [Lit ''_token'', Eol],
      [Bol, Lit ''token_'']]"

definition CONFIG_EXCLUDE_PATTERNS :: "re_item list list" where
  "CONFIG_EXCLUDE_PATTERNS =
     [[Bol, Lit ''allow_''],
      [Bol, Lit ''enable_''],
      [Bol, Lit ''disable_''],
      [Bol, Lit ''show_''],
      [Bol, Lit ''display_''],
      [Bol, Lit ''retain_''],
      [Lit ''_time'', Eol],
      [Lit ''_period'', Eol],
      [Lit ''_expiry'', Eol],
      [Lit ''_timeout'', Eol],
      [Lit ''_ttl'', Eol],
      [Lit ''_validity_period'', Eol],
      [Lit ''_size'', Eol],
      [Lit ''_count'', Eol],
      [Lit ''_length'', Eol],
      [Bol, Lit ''max_''],
      [Bol, Lit ''min_''],
      [Lit ''_threads'', Eol],
      [Lit ''_pool_size'', Eol],
      [Lit ''_interval'', Eol]]"

section \<open>The key classifier\<close>

text \<open>\<open>re.sub(r'["\']', '', key).lower()\<close>: both kinds of quote are removed everywhere.\<close>

definition key_clean :: "string \<Rightarrow> string" where
  "key_clean key = lower (filter (\<lambda>c. c \<noteq> dquote \<and> c \<noteq> squote) key)"

definition is_sensitive_key :: "string \<Rightarrow> bool" where
  "is_sensitive_key key =
     (let kc = key_clean key
      in if list_ex (\<lambda>pattern. re_search pattern kc) CONFIG_EXCLUDE_PATTERNS then False
         else if \<exists>pattern \<in> SENSITIVE_PATTERNS. sublist pattern kc then True
         else if list_ex (\<lambda>pattern. re_search pattern kc) TOKEN_PATTERNS then True
         else False)"

section \<open>The value classifier\<close>

text \<open>
  Exceptions are values: \<open>float()\<close> raises \<open>ValueError\<close> on a string it cannot
  parse, and \<open>TypeError\<close> on an argument that is neither a string nor a number.
\<close>

datatype py_exn = ValueError | TypeError

text \<open>
  \<open>float(s)\<close> on a string: surrounding whitespace is dropped, every underscore has to
  stand between two digits, and what is left has to be a decimal literal with an optional
  sign and exponent, or one of \<open>inf\<close>, \<open>infinity\<close>, \<open>nan\<close> in any letter case. The
  classifier discards the number, so the model returns only whether parsing succeeds.
  The whitespace \<open>float\<close> drops is \<open>str.isspace\<close> without the four separators
  U+001C .. U+001F.
\<close>

definition float_isspace :: "char \<Rightarrow> bool" where
  "float_isspace c =
     (let n = char_code c in (9 \<le> n \<and> n \<le> 13) \<or> n = 32 \<or> n = 133 \<or> n = 160)"

definition float_strip :: "string \<Rightarrow> string" where
  "float_strip s = rev (dropWhile float_isspace (rev (dropWhile float_isspace s)))"

fun underscores_ok :: "char option \<Rightarrow> string \<Rightarrow> bool" where
  "underscores_ok prev [] = (prev \<noteq> Some CHR ''_'')"
| "underscores_ok prev (c # s) =
     ((if c = CHR ''_'' then (case prev of None \<Rightarrow> False | Some p \<Rightarrow> is_digit p)
       else if prev = Some CHR ''_'' then is_digit c
       else True)
      \<and> underscores_ok (Some c) s)"

definition drop_sign :: "string \<Rightarrow> string" where
  "drop_sign s =
     (case s of [] \<Rightarrow> [] | c # r \<Rightarrow> if c = CHR ''+'' \<or> c = CHR ''-'' then r else s)"

definition is_exponent :: "string \<Rightarrow> bool" where
  "is_exponent s =
     (case s of
        [] \<Rightarrow> False
      | c # r \<Rightarrow> (c = CHR ''e'' \<or> c = CHR ''E'') \<and>
                 (let d = drop_sign r in d \<noteq> [] \<and> list_all is_digit d))"

definition is_float_literal :: "string \<Rightarrow> bool" where
  "is_float_literal s =
     (let body = drop_sign s
      in if lower body = ''inf'' \<or> lower body = ''infinity'' \<or> lower body = ''nan'' then True
         else
           let ip = takeWhile is_digit body;
               r1 = dropWhile is_digit body;
               fp = (case r1 of [] \<Rightarrow> []
                     | c # r \<Rightarrow> if c = CHR ''.'' then takeWhile is_digit r else []);
               r2 = (case r1 of [] \<Rightarrow> []
                     | c # r \<Rightarrow> if c = CHR ''.'' then dropWhile is_digit r else r1)
           in (ip \<noteq> [] \<or> fp \<noteq> []) \<and> (r2 = [] \<or> is_exponent r2))"

definition py_float :: "string \<Rightarrow> py_exn + unit" where
  "py_float s =
     (let t = float_strip s
      in if t \<noteq> [] \<and> underscores_ok None t \<and>
            is_float_literal (filter (\<lambda>c. c \<noteq> CHR ''_'') t)
         then Inr () else Inl ValueError)"

definition is_b64url :: "char \<Rightarrow> bool" where
  "is_b64url c = (is_alnum c \<or> c = CHR ''_'' \<or> c = CHR ''-'')"

definition is_b64std :: "char \<Rightarrow> bool" where
  "is_b64std c = (is_alnum c \<or> c = CHR ''+'' \<or> c = CHR ''/'')"

definition is_equals :: "char \<Rightarrow> bool" where
  "is_equals c = (c = CHR ''='')"

definition VALUE_PATTERNS :: "re_item list list" where
  "VALUE_PATTERNS =
     [[Lit ''eyJ'', Rep is_b64url 0 None, Lit ''.'', Rep is_b64url 0 None, Lit ''.'',
       Rep is_b64url 0 None],
      [Bol, Rep is_b64std 40 None, Rep is_equals 0 (Some 2), Eol],
      [Bol, Lit ''sk-'', Rep is_b64url 20 None],
      [Bol, Rep is_alnum 32 None, Eol]]"

text \<open>
  The object: the four configuration attributes and the two counters that
  \<open>__init__\<close> sets.
\<close>

record TOMLRedactor =
  redaction_text :: string
  check_values :: bool
  preserve_commented :: bool
  remove_comments :: bool
  redacted_count :: int
  redacted_lines :: "int set"

definition init :: "string \<Rightarrow> bool \<Rightarrow> bool \<Rightarrow> bool \<Rightarrow> TOMLRedactor" where
  "init text cv pc rc =
     \<lparr>redaction_text = text, check_values = cv, preserve_commented = pc,
      remove_comments = rc, redacted_count = 0, redacted_lines = {}\<rparr>"

definition default_redactor :: TOMLRedactor where
  "default_redactor = init ''***REDACTED***'' True True False"

text \<open>\<open>value.strip().strip('"\'')\<close>, the local \<open>clean_value\<close> of \<open>is_sensitive_value\<close>.\<close>

definition clean_value :: "string \<Rightarrow> string" where
  "clean_value v = strip_chars [dquote, squote] (strip v)"

definition is_sensitive_value :: "TOMLRedactor \<Rightarrow> string \<Rightarrow> py_exn + bool" where
  "is_sensitive_value self v =
     (if \<not> check_values self then Inr False
      else
        let cv = clean_value v
        in if startswith cv ''$'' \<or> startswith cv ''${'' then Inr False
           else if lower cv \<in> set [''true'', ''false''] then Inr False
           else (case py_float cv of
                   Inr _ \<Rightarrow> Inr False
                 | Inl ValueError \<Rightarrow>
                     Inr (list_ex (\<lambda>pattern. re_search pattern cv) VALUE_PATTERNS)
                 | Inl e \<Rightarrow> Inl e))"

section \<open>The line rewriter\<close>

text \<open>
  \<open>re.match\<close> of the assignment pattern
  \<^verbatim>\<open>^(\s*)([a-zA-Z_][a-zA-Z0-9_.-]*(?:\."[^"]*")*)\s*=\s*(.+)$\<close>
  with its three groups. A repetition followed by something its class excludes can only
  stop at the end of its run (\<open>\s*\<close> before the key and before \<open>=\<close>, \<open>[^"]*\<close>
  before the closing quote, the quoted segments before \<open>\s*=\<close>, \<open>.+\<close> before
  \<open>$\<close>). The two places where the engine has to give characters back are written out,
  longest first as the engine tries them: the identifier run, whose class contains the
  dot that opens a quoted segment (\<open>try_ident\<close>), and the whitespace after \<open>=\<close>, which
  \<open>.\<close> also accepts (\<open>try_value\<close>).
\<close>

definition key_start :: "char \<Rightarrow> bool" where
  "key_start c = (is_lower c \<or> is_upper c \<or> c = CHR ''_'')"

definition key_char :: "char \<Rightarrow> bool" where
  "key_char c =
     (is_lower c \<or> is_upper c \<or> is_digit c \<or> c = CHR ''_'' \<or> c = CHR ''.'' \<or> c = CHR ''-'')"

definition not_dquote :: "char \<Rightarrow> bool" where
  "not_dquote c = (c \<noteq> dquote)"

definition not_newline :: "char \<Rightarrow> bool" where
  "not_newline c = (c \<noteq> newline)"

text \<open>One \<^verbatim>\<open>\."[^"]*"\<close>: the segment and what follows it.\<close>

definition quoted_segment :: "string \<Rightarrow> (string \<times> string) option" where
  "quoted_segment s =
     (case s of
        c1 # c2 # r \<Rightarrow>
          if c1 = CHR ''.'' \<and> c2 = dquote then
            (case dropWhile not_dquote r of
               [] \<Rightarrow> None
             | _ # r' \<Rightarrow> Some (c1 # c2 # takeWhile not_dquote r @ [dquote], r'))
          else None
      | _ \<Rightarrow> None)"

text \<open>\<^verbatim>\<open>(?:\."[^"]*")*\<close>: as many whole segments as there are.\<close>

function quoted_segments :: "string \<Rightarrow> string \<times> string" where
  "quoted_segments s =
     (case quoted_segment s of
        None \<Rightarrow> ([], s)
      | Some (seg, r) \<Rightarrow> (case quoted_segments r of (segs, rest) \<Rightarrow> (seg @ segs, rest)))"
  by pat_completeness auto
termination
proof (relation "measure length")
  show "wf (measure length)" by simp
next
  fix s :: string and x2 :: "string \<times> string" and seg r :: string
  assume a: "quoted_segment s = Some x2" and b: "(seg, r) = x2"
  from a b obtain c1 c2 t q where s: "s = c1 # c2 # t" and d: "dropWhile not_dquote t = q # r"
    by (auto simp: quoted_segment_def split: list.splits if_splits)
  from d have "length r < length (dropWhile not_dquote t)" by simp
  also have "\<dots> \<le> length t" by (rule length_dropWhile_le)
  finally show "(r, s) \<in> measure length" using s by simp
qed

declare quoted_segments.simps [simp del]

text \<open>\<^verbatim>\<open>(.+)$\<close>: a non-empty run without newline, up to the end or to a final newline.\<close>

definition dot_plus_eol :: "string \<Rightarrow> string option" where
  "dot_plus_eol s =
     (let v = takeWhile not_newline s; rest = dropWhile not_newline s
      in if v \<noteq> [] \<and> (rest = [] \<or> rest = [newline]) then Some v else None)"

text \<open>\<^verbatim>\<open>\s*(.+)$\<close> with \<open>\s*\<close> taking at most \<open>j\<close> characters.\<close>

fun try_value :: "string \<Rightarrow> nat \<Rightarrow> string option" where
  "try_value s 0 = dot_plus_eol s"
| "try_value s (Suc j) =
     (case dot_plus_eol (drop (Suc j) s) of
        Some v \<Rightarrow> Some v
      | None \<Rightarrow> try_value s j)"

text \<open>\<^verbatim>\<open>\s*=\s*(.+)$\<close>\<close>

definition match_tail :: "string \<Rightarrow> string option" where
  "match_tail s =
     (case dropWhile py_isspace s of
        [] \<Rightarrow> None
      | c # r \<Rightarrow>
          if c = CHR ''='' then try_value r (length (takeWhile py_isspace r)) else None)"

text \<open>The rest of the pattern after an identifier of \<open>1 + k\<close> characters.\<close>

definition after_ident :: "char \<Rightarrow> string \<Rightarrow> nat \<Rightarrow> (string \<times> string) option" where
  "after_ident c0 s1 k =
     (case quoted_segments (drop k s1) of
        (segs, rest) \<Rightarrow>
          (case match_tail rest of
             None \<Rightarrow> None
           | Some v \<Rightarrow> Some (c0 # take k s1 @ segs, v)))"

fun try_ident :: "char \<Rightarrow> string \<Rightarrow> nat \<Rightarrow> (string \<times> string) option" where
  "try_ident c0 s1 0 = after_ident c0 s1 0"
| "try_ident c0 s1 (Suc k) =
     (case after_ident c0 s1 (Suc k) of
        Some kv \<Rightarrow> Some kv
      | None \<Rightarrow> try_ident c0 s1 k)"

definition match_line :: "string \<Rightarrow> (string \<times> string \<times> string) option" where
  "match_line line =
     (case dropWhile py_isspace line of
        [] \<Rightarrow> None
      | c0 # s1 \<Rightarrow>
          if key_start c0 then
            (case try_ident c0 s1 (length (takeWhile key_char s1)) of
               None \<Rightarrow> None
             | Some (key, v) \<Rightarrow> Some (takeWhile py_isspace line, key, v))
          else None)"

text \<open>The local \<open>redacted_value\<close> of \<open>redact_line\<close>: the placeholder in the value's quotes.\<close>

definition redacted_value :: "TOMLRedactor \<Rightarrow> string \<Rightarrow> string" where
  "redacted_value self v =
     (let value_stripped = strip v
      in if startswith value_stripped [dquote] \<and> endswith value_stripped [dquote]
         then [dquote] @ redaction_text self @ [dquote]
         else if startswith value_stripped [squote] \<and> endswith value_stripped [squote]
         then [squote] @ redaction_text self @ [squote]
         else [dquote] @ redaction_text self @ [dquote])"

text \<open>
  \<open>redact_line\<close> returns the emitted line and the object after the call. In
  \<open>is_sensitive_key(key) or is_sensitive_value(value)\<close> the value is only looked at
  when the key is not sensitive.
\<close>

definition redact_line ::
  "TOMLRedactor \<Rightarrow> string \<Rightarrow> int \<Rightarrow> py_exn + (string \<times> TOMLRedactor)" where
  "redact_line self line line_num =
     (let stripped = lstrip line
      in if stripped = [] then Inr (line, self)
         else if startswith stripped ''#'' then
           (if remove_comments self then Inr ([], self)
            else if preserve_commented self then Inr (line, self)
            else Inr (line, self))
         else
           (case match_line line of
              None \<Rightarrow> Inr (line, self)
            | Some (indent, key, v) \<Rightarrow>
                (case (if is_sensitive_key key then Inr True
                       else is_sensitive_value self v) of
                   Inl e \<Rightarrow> Inl e
                 | Inr sensitive \<Rightarrow>
                     if sensitive then
                       Inr (indent @ key @ '' = '' @ redacted_value self v @ [newline],
                            self\<lparr>redacted_count := redacted_count self + 1,
                                 redacted_lines := insert line_num (redacted_lines self)\<rparr>)
                     else Inr (line, self))))"

section \<open>Quoting and example inputs\<close>

definition dq :: "string \<Rightarrow> string" where
  "dq s = [dquote] @ s @ [dquote]"

definition sq :: "string \<Rightarrow> string" where
  "sq s = [squote] @ s @ [squote]"

definition moesif_key :: string where
  "moesif_key = ''properties.'' @ dq ''moesifKey''"

definition comment_line :: string where
  "comment_line = ''  # password = '' @ dq ''hunter2'' @ [newline]"

definition malformed_line :: string where
  "malformed_line = ''= = [[ '' @ [dquote] @ ''unterminated''"

definition long_digits :: string where
  "long_digits = dq (replicate 32 CHR ''7'')"

definition jwt_line :: string where
  "jwt_line = ''session = eyJhbGciOi.eyJzdWIi.SflKxw'' @ [newline]"

definition password_line :: string where
  "password_line = ''password = '' @ dq ''x'' @ [newline]"

definition tight_line :: string where
  "tight_line = ''   db.password='' @ sq ''hunter2''"

definition two_line_redactor :: TOMLRedactor where
  "two_line_redactor = init (''x'' @ [newline] @ ''y'') True True False"

section \<open>Facts about the string functions\<close>

lemma key_start_not_space: "key_start c \<Longrightarrow> \<not> py_isspace c"
  by (auto simp: key_start_def is_lower_def is_upper_def in_range_def py_isspace_def
      char_code_def Let_def)

lemma key_start_not_hash: "key_start c \<Longrightarrow> c \<noteq> CHR ''#''"
  by (auto simp: key_start_def is_lower_def is_upper_def in_range_def char_code_def)

lemma strip_chars_decomp:
  "\<exists>p s. t = p @ strip_chars cs t @ s \<and> set p \<subseteq> set cs \<and> set s \<subseteq> set cs"
proof -
  let ?P = "\<lambda>c. c \<in> set cs"
  let ?u = "dropWhile ?P t"
  have 1: "t = takeWhile ?P t @ ?u" by simp
  have "?u = rev (rev ?u)" by simp
  also have "\<dots> = rev (takeWhile ?P (rev ?u) @ dropWhile ?P (rev ?u))"
    by (simp only: takeWhile_dropWhile_id)
  also have "\<dots> = rev (dropWhile ?P (rev ?u)) @ rev (takeWhile ?P (rev ?u))"
    by (rule rev_append)
  finally have 2: "?u = strip_chars cs t @ rev (takeWhile ?P (rev ?u))"
    by (simp only: strip_chars_def)
  have 3: "set (takeWhile ?P t) \<subseteq> set cs"
    by (auto dest: set_takeWhileD)
  have 4: "set (rev (takeWhile ?P (rev ?u))) \<subseteq> set cs"
    by (auto dest: set_takeWhileD)
  from 1 2 have "t = takeWhile ?P t @ strip_chars cs t @ rev (takeWhile ?P (rev ?u))"
    by metis
  with 3 4 show ?thesis by blast
qed

lemma strip_chars_ends:
  assumes "strip_chars cs t \<noteq> []"
  shows "hd (strip_chars cs t) \<notin> set cs \<and> last (strip_chars cs t) \<notin> set cs"
proof -
  let ?P = "\<lambda>c. c \<in> set cs"
  let ?u = "dropWhile ?P t"
  let ?w = "dropWhile ?P (rev ?u)"
  have r: "strip_chars cs t = rev ?w" by (simp add: strip_chars_def)
  with assms have w: "?w \<noteq> []" by simp
  then have "\<not> ?P (hd ?w)" by (rule hd_dropWhile)
  then have l: "last (strip_chars cs t) \<notin> set cs"
    using w r by (simp add: last_rev)
  have u: "?u \<noteq> []"
  proof
    assume "?u = []"
    then have e: "?w = []" by (simp only: rev.simps(1) dropWhile.simps(1))
    from w e show False by (rule notE)
  qed
  then have hu: "\<not> ?P (hd ?u)" by (rule hd_dropWhile)
  have "?u = rev (rev ?u)" by simp
  also have "\<dots> = rev (takeWhile ?P (rev ?u) @ ?w)"
    by (simp only: takeWhile_dropWhile_id)
  also have "\<dots> = rev ?w @ rev (takeWhile ?P (rev ?u))"
    by (rule rev_append)
  finally have "?u = rev ?w @ rev (takeWhile ?P (rev ?u))" .
  then have "hd ?u = hd (rev ?w)" using w by (metis hd_append2 rev_is_Nil_conv)
  with hu r have "hd (strip_chars cs t) \<notin> set cs" by simp
  with l show ?thesis by simp
qed

section \<open>Facts about the classifiers\<close>

lemma py_float_cases: "py_float s = Inr () \<or> py_float s = Inl ValueError"
  by (simp add: py_float_def Let_def)

lemma is_sensitive_value_total: "\<exists>b. is_sensitive_value self v = Inr b"
proof -
  consider "py_float (clean_value v) = Inr ()" | "py_float (clean_value v) = Inl ValueError"
    using py_float_cases by blast
  then show ?thesis
    by cases (auto simp: is_sensitive_value_def Let_def)
qed

section \<open>Facts about the line rewriter\<close>

lemma match_line_SomeD:
  assumes "match_line line = Some (indent, key, v)"
  shows "\<exists>c0 s1. lstrip line = c0 # s1 \<and> key_start c0 \<and> indent = takeWhile py_isspace line \<and>
           try_ident c0 s1 (length (takeWhile key_char s1)) = Some (key, v)"
  using assms
  by (auto simp: match_line_def lstrip_def split: list.splits if_splits option.splits)

text \<open>A line that matches the assignment pattern is neither blank nor a comment.\<close>

lemma match_line_not_blank_comment:
  assumes "match_line line = Some (indent, key, v)"
  shows "lstrip line \<noteq> [] \<and> \<not> startswith (lstrip line) ''#''"
proof -
  from match_line_SomeD[OF assms] obtain c0 s1 where
    l: "lstrip line = c0 # s1" and k: "key_start c0" by blast
  from k have "c0 \<noteq> CHR ''#''" by (rule key_start_not_hash)
  with l show ?thesis by (simp add: startswith_def)
qed

lemma redact_line_blank:
  assumes "lstrip line = []"
  shows "redact_line self line n = Inr (line, self)"
  using assms by (simp add: redact_line_def Let_def)

lemma redact_line_comment:
  assumes "startswith (lstrip line) ''#''"
  shows "redact_line self line n = Inr (if remove_comments self then [] else line, self)"
  using assms by (auto simp: redact_line_def Let_def startswith_def)

lemma redact_line_unmatched:
  assumes "match_line line = None" and "\<not> startswith (lstrip line) ''#''"
  shows "redact_line self line n = Inr (line, self)"
  using assms by (simp add: redact_line_def Let_def)

lemma redact_line_matched:
  assumes "match_line line = Some (indent, key, v)"
  shows "redact_line self line n =
     (case (if is_sensitive_key key then Inr True else is_sensitive_value self v) of
        Inl e \<Rightarrow> Inl e
      | Inr sensitive \<Rightarrow>
          if sensitive then
            Inr (indent @ key @ '' = '' @ redacted_value self v @ [newline],
                 self\<lparr>redacted_count := redacted_count self + 1,
                      redacted_lines := insert n (redacted_lines self)\<rparr>)
          else Inr (line, self))"
  using match_line_not_blank_comment[OF assms] assms
  by (simp add: redact_line_def Let_def)

lemma redact_line_sensitive:
  assumes "match_line line = Some (indent, key, v)"
    and "is_sensitive_key key \<or> is_sensitive_value self v = Inr True"
  shows "redact_line self line n =
           Inr (indent @ key @ '' = '' @ redacted_value self v @ [newline],
                self\<lparr>redacted_count := redacted_count self + 1,
                     redacted_lines := insert n (redacted_lines self)\<rparr>)"
  using assms(2) unfolding redact_line_matched[OF assms(1)] by auto

section \<open>The assignment pattern on a rebuilt line\<close>

text \<open>
  What \<open>match_line\<close> finds on the line that \<open>redact_line\<close> emits: the same
  indentation and key, and the quoted placeholder as the value, unless the placeholder
  contains a newline, in which case the emitted line does not match at all.
\<close>

lemma char_facts:
  "py_isspace CHR '' ''" "\<not> py_isspace dquote" "\<not> py_isspace squote"
  "\<not> py_isspace CHR ''=''" "\<not> key_char CHR '' ''" "\<not> key_char dquote"
  "\<not> key_char CHR ''=''" "key_char CHR ''.''"
  "dquote \<noteq> newline" "squote \<noteq> newline" "squote \<noteq> dquote" "dquote \<noteq> CHR ''=''"
  "squote \<noteq> CHR ''=''" "CHR ''.'' \<noteq> dquote" "CHR '' '' \<noteq> dquote" "CHR '' '' \<noteq> newline"
  "CHR ''='' \<noteq> newline" "dquote \<noteq> CHR ''.''" "squote \<noteq> CHR ''.''"
  "newline \<noteq> dquote" "newline \<noteq> squote" "dquote \<noteq> squote"
  by (simp_all add: py_isspace_def key_char_def is_lower_def is_upper_def is_digit_def
      in_range_def char_code_def dquote_def squote_def newline_def)

lemma key_char_not_space: "key_char c \<Longrightarrow> \<not> py_isspace c"
  by (auto simp: key_char_def is_lower_def is_upper_def is_digit_def in_range_def
      py_isspace_def char_code_def Let_def)

lemma key_char_not_equals: "key_char c \<Longrightarrow> c \<noteq> CHR ''=''"
  by (auto simp: key_char_def is_lower_def is_upper_def is_digit_def in_range_def char_code_def)

lemma key_char_not_dquote: "key_char c \<Longrightarrow> c \<noteq> dquote"
  by (auto simp: key_char_def is_lower_def is_upper_def is_digit_def in_range_def
      char_code_def dquote_def)

lemma dot_plus_eol_split:
  assumes "newline \<notin> set a"
  shows "dot_plus_eol (a @ newline # b) = (if a \<noteq> [] \<and> b = [] then Some a else None)"
proof -
  from assms have all: "\<forall>x \<in> set a. not_newline x" by (auto simp: not_newline_def)
  then have t: "takeWhile not_newline (a @ newline # b) = a"
    by (simp add: takeWhile_append2 not_newline_def)
  from all have d: "dropWhile not_newline (a @ newline # b) = newline # b"
    by (simp add: dropWhile_append2 not_newline_def)
  show ?thesis by (simp add: dot_plus_eol_def t d)
qed

lemma dot_plus_eol_quoted:
  assumes "newline \<notin> set pre" and "q \<noteq> newline"
  shows "dot_plus_eol (pre @ q # R @ [q, newline]) =
           (if newline \<in> set R then None else Some (pre @ q # R @ [q]))"
proof (cases "newline \<in> set R")
  case True
  then obtain r1 r2 where R: "R = r1 @ newline # r2" and r1: "newline \<notin> set r1"
    by (auto dest: split_list_first)
  have n: "newline \<notin> set (pre @ q # r1)" using assms r1 by auto
  have "dot_plus_eol (pre @ q # R @ [q, newline]) =
        dot_plus_eol ((pre @ q # r1) @ newline # (r2 @ [q, newline]))"
    by (simp add: R)
  also have "\<dots> = None"
    by (subst dot_plus_eol_split[OF n]) simp
  finally show ?thesis using True by simp
next
  case False
  have n: "newline \<notin> set (pre @ q # R @ [q])" using assms False by auto
  have "dot_plus_eol (pre @ q # R @ [q, newline]) =
        dot_plus_eol ((pre @ q # R @ [q]) @ newline # [])"
    by simp
  also have "\<dots> = Some (pre @ q # R @ [q])"
    by (subst dot_plus_eol_split[OF n]) simp
  finally show ?thesis using False by simp
qed

lemma match_tail_redacted:
  assumes "q \<noteq> newline" and "\<not> py_isspace q"
  shows "match_tail ('' = '' @ q # R @ [q, newline]) =
           (if newline \<in> set R then None else Some (q # R @ [q]))"
proof -
  have a: "dot_plus_eol (q # R @ [q, newline]) =
           (if newline \<in> set R then None else Some (q # R @ [q]))"
    using dot_plus_eol_quoted[of "[]" q R] assms by simp
  have b: "dot_plus_eol (CHR '' '' # q # R @ [q, newline]) =
           (if newline \<in> set R then None else Some (CHR '' '' # q # R @ [q]))"
    using dot_plus_eol_quoted[of "'' ''" q R] assms by (simp add: newline_def)
  show ?thesis
    using assms by (simp add: match_tail_def char_facts a b)
qed

lemma match_tail_starts:
  assumes "\<not> py_isspace c" and "c \<noteq> CHR ''=''"
  shows "match_tail (c # r) = None"
  using assms by (simp add: match_tail_def)

lemma quoted_segment_SomeD:
  assumes "quoted_segment s = Some (seg, r)"
  shows "\<exists>body. seg = CHR ''.'' # dquote # body @ [dquote] \<and> dquote \<notin> set body \<and> s = seg @ r"
proof -
  from assms obtain t q where s: "s = CHR ''.'' # dquote # t"
    and d: "dropWhile not_dquote t = q # r"
    and seg: "seg = CHR ''.'' # dquote # takeWhile not_dquote t @ [dquote]"
    by (auto simp: quoted_segment_def split: list.splits if_splits)
  from d have "q = hd (dropWhile not_dquote t)" "dropWhile not_dquote t \<noteq> []" by simp_all
  then have "\<not> not_dquote q" using hd_dropWhile[of not_dquote t] by simp
  then have q: "q = dquote" by (simp add: not_dquote_def)
  have "t = takeWhile not_dquote t @ dropWhile not_dquote t" by simp
  with d q have t: "t = takeWhile not_dquote t @ dquote # r" by simp
  have "dquote \<notin> set (takeWhile not_dquote t)"
    by (auto dest: set_takeWhileD simp: not_dquote_def)
  moreover have "s = seg @ r" using s seg t by (metis append_Cons append_assoc append_Nil)
  ultimately show ?thesis using seg by blast
qed

lemma quoted_segment_wf:
  assumes "dquote \<notin> set body"
  shows "quoted_segment (CHR ''.'' # dquote # body @ dquote # Y) =
           Some (CHR ''.'' # dquote # body @ [dquote], Y)"
proof -
  from assms have all: "\<forall>x \<in> set body. not_dquote x" by (auto simp: not_dquote_def)
  then have t: "takeWhile not_dquote (body @ dquote # Y) = body"
    by (simp add: takeWhile_append2 not_dquote_def)
  from all have d: "dropWhile not_dquote (body @ dquote # Y) = dquote # Y"
    by (simp add: dropWhile_append2 not_dquote_def)
  show ?thesis by (simp add: quoted_segment_def t d)
qed

lemma quoted_segment_starts:
  assumes "c \<noteq> CHR ''.'' \<or> x \<noteq> dquote"
  shows "quoted_segment (c # x # Z) = None"
  using assms by (auto simp: quoted_segment_def)

lemma quoted_segments_None:
  assumes "quoted_segment X = None"
  shows "quoted_segments X = ([], X)"
  using assms by (simp add: quoted_segments.simps)

lemma quoted_segments_append:
  assumes "quoted_segments s = (segs, rest)" and "quoted_segment X = None"
  shows "quoted_segments (segs @ X) = (segs, X)"
  using assms
proof (induction s arbitrary: segs rest rule: quoted_segments.induct)
  case (1 s)
  show ?case
  proof (cases "quoted_segment s")
    case None
    with "1.prems"(1) have "segs = []" by (simp add: quoted_segments.simps)
    with "1.prems"(2) show ?thesis by (simp add: quoted_segments_None)
  next
    case (Some p)
    obtain seg r where p: "p = (seg, r)" by (cases p)
    obtain segs' rest' where qr: "quoted_segments r = (segs', rest')"
      by (cases "quoted_segments r")
    from "1.prems"(1) Some p qr have segs: "segs = seg @ segs'"
      by (simp add: quoted_segments.simps[of s])
    from Some p have qs: "quoted_segment s = Some (seg, r)" by simp
    have ih: "quoted_segments (segs' @ X) = (segs', X)"
      using "1.IH"[OF Some p[symmetric] qr "1.prems"(2)] .
    from quoted_segment_SomeD[OF qs] obtain body where
      seg: "seg = CHR ''.'' # dquote # body @ [dquote]" and b: "dquote \<notin> set body" by blast
    have "quoted_segment (seg @ segs' @ X) = Some (seg, segs' @ X)"
      using quoted_segment_wf[OF b, of "segs' @ X"] seg by simp
    then have "quoted_segments (seg @ segs' @ X) = (seg @ segs', X)"
      using ih by (simp add: quoted_segments.simps[of "seg @ segs' @ X"])
    with segs show ?thesis by simp
  qed
qed

lemma quoted_segments_shape:
  assumes "quoted_segments s = (segs, rest)"
  shows "s = segs @ rest \<and> (segs = [] \<or> (\<exists>t. segs = CHR ''.'' # dquote # t))"
  using assms
proof (induction s arbitrary: segs rest rule: quoted_segments.induct)
  case (1 s)
  show ?case
  proof (cases "quoted_segment s")
    case None
    with "1.prems" show ?thesis by (simp add: quoted_segments.simps)
  next
    case (Some p)
    obtain seg r where p: "p = (seg, r)" by (cases p)
    obtain segs' rest' where qr: "quoted_segments r = (segs', rest')"
      by (cases "quoted_segments r")
    from "1.prems" Some p qr have segs: "segs = seg @ segs'" and rest: "rest = rest'"
      by (simp_all add: quoted_segments.simps[of s])
    from Some p have qs: "quoted_segment s = Some (seg, r)" by simp
    from quoted_segment_SomeD[OF qs] obtain body where
      seg: "seg = CHR ''.'' # dquote # body @ [dquote]" and s: "s = seg @ r" by blast
    from "1.IH"[OF Some p[symmetric] qr] have "r = segs' @ rest'" by simp
    with s segs rest seg show ?thesis by simp
  qed
qed

lemma try_ident_None:
  assumes "\<forall>j \<le> n. after_ident c0 s j = None"
  shows "try_ident c0 s n = None"
  using assms by (induction n) simp_all

lemma try_ident_at:
  assumes "\<forall>j < n. after_ident c0 s j = None"
  shows "try_ident c0 s n = after_ident c0 s n"
proof (cases n)
  case 0
  then show ?thesis by simp
next
  case (Suc k)
  with assms have "\<forall>j \<le> k. after_ident c0 s j = None" by simp
  then have "try_ident c0 s k = None" by (rule try_ident_None)
  with Suc show ?thesis by (simp split: option.splits)
qed

lemma try_ident_SomeD:
  assumes "try_ident c0 s n = Some kv"
  shows "\<exists>k \<le> n. after_ident c0 s k = Some kv"
  using assms
proof (induction n)
  case 0
  then show ?case by simp
next
  case (Suc n)
  show ?case
  proof (cases "after_ident c0 s (Suc n)")
    case None
    with Suc.prems have "try_ident c0 s n = Some kv" by simp
    from Suc.IH[OF this] obtain k where "k \<le> n" "after_ident c0 s k = Some kv" by blast
    then show ?thesis using le_SucI by blast
  next
    case (Some a)
    with Suc.prems have "after_ident c0 s (Suc n) = Some kv" by simp
    then show ?thesis by blast
  qed
qed

lemma after_ident_SomeD:
  assumes "after_ident c0 s k = Some (key, v)"
  shows "\<exists>segs rest. quoted_segments (drop k s) = (segs, rest) \<and> match_tail rest = Some v \<and>
           key = c0 # take k s @ segs"
  using assms by (auto simp: after_ident_def split: prod.splits option.splits)

lemma after_ident_None:
  assumes "quoted_segment (drop j s) = None" and "match_tail (drop j s) = None"
  shows "after_ident c0 s j = None"
  using assms by (simp add: after_ident_def quoted_segments_None)

lemma match_line_shape:
  assumes "match_line line = Some (indent, key, v)"
  shows "\<exists>c0 ident segs s rest.
           key = c0 # ident @ segs \<and> key_start c0 \<and> (\<forall>c \<in> set ident. key_char c) \<and>
           (\<forall>c \<in> set indent. py_isspace c) \<and> quoted_segments s = (segs, rest)"
proof -
  from match_line_SomeD[OF assms] obtain c0 s1 where
    c0: "key_start c0" and ind: "indent = takeWhile py_isspace line" and
    ti: "try_ident c0 s1 (length (takeWhile key_char s1)) = Some (key, v)" by blast
  from try_ident_SomeD[OF ti] obtain k where
    k: "k \<le> length (takeWhile key_char s1)" and ai: "after_ident c0 s1 k = Some (key, v)"
    by blast
  from after_ident_SomeD[OF ai] obtain segs rest where
    qs: "quoted_segments (drop k s1) = (segs, rest)" and key: "key = c0 # take k s1 @ segs"
    by blast
  have "take k (takeWhile key_char s1) = take k s1"
    using k by (subst takeWhile_eq_take) (simp add: min_def)
  then have "set (take k s1) \<subseteq> set (takeWhile key_char s1)"
    by (metis set_take_subset)
  then have id: "\<forall>c \<in> set (take k s1). key_char c"
    by (auto dest: set_takeWhileD)
  from ind have sp: "\<forall>c \<in> set indent. py_isspace c"
    by (auto dest: set_takeWhileD)
  from key c0 id sp qs show ?thesis by blast
qed

lemma match_line_rebuilt:
  assumes c0: "key_start c0" and ident: "\<forall>c \<in> set ident. key_char c"
    and indent: "\<forall>c \<in> set indent. py_isspace c"
    and qs: "quoted_segments s = (segs, rest)"
    and q: "q = dquote \<or> q = squote"
  shows "match_line (indent @ (c0 # ident @ segs) @ '' = '' @ q # R @ [q, newline]) =
           (if newline \<in> set R then None else Some (indent, c0 # ident @ segs, q # R @ [q]))"
proof -
  let ?T = "CHR '' '' # CHR ''='' # CHR '' '' # q # R @ [q, newline]"
  let ?s1 = "ident @ segs @ ?T"
  let ?res = "if newline \<in> set R then None else Some (c0 # ident @ segs, q # R @ [q])"
  from q have qn: "q \<noteq> newline" and qs': "\<not> py_isspace q" by (auto simp: char_facts)
  have mt: "match_tail ?T = (if newline \<in> set R then None else Some (q # R @ [q]))"
    using match_tail_redacted[OF qn qs', of R] by simp
  have c0s: "\<not> py_isspace c0" using c0 by (rule key_start_not_space)
  have dw: "dropWhile py_isspace (indent @ c0 # ?s1) = c0 # ?s1"
    using indent c0s by (simp add: dropWhile_append2)
  have tw: "takeWhile py_isspace (indent @ c0 # ?s1) = indent"
    using indent c0s by (simp add: takeWhile_append2)
  have qT: "quoted_segment ?T = None"
    by (simp add: quoted_segment_def)
  have shape: "segs = [] \<or> (\<exists>t. segs = CHR ''.'' # dquote # t)"
    using quoted_segments_shape[OF qs] by simp
  have at_k: "after_ident c0 ?s1 (length ident) = ?res"
  proof -
    have "quoted_segments (segs @ ?T) = (segs, ?T)"
      by (rule quoted_segments_append[OF qs qT])
    then show ?thesis by (simp add: after_ident_def mt)
  qed
  have below: "\<forall>j < length ident. after_ident c0 ?s1 j = None"
  proof (intro allI impI)
    fix j assume j: "j < length ident"
    then have d: "drop j ident = ident ! j # drop (Suc j) ident"
      by (simp add: Cons_nth_drop_Suc)
    from j ident have kc: "key_char (ident ! j)" by simp
    have "\<exists>x Z. drop (Suc j) ident @ segs @ ?T = x # Z \<and> x \<noteq> dquote"
    proof (cases "drop (Suc j) ident")
      case Nil
      with shape show ?thesis by (auto simp: char_facts)
    next
      case (Cons x xs)
      then have "x \<in> set (drop (Suc j) ident)" by simp
      then have "x \<in> set ident" by (rule in_set_dropD)
      with ident have "x \<noteq> dquote" by (auto dest: key_char_not_dquote)
      with Cons show ?thesis by simp
    qed
    then obtain x Z where xz: "drop (Suc j) ident @ segs @ ?T = x # Z" and x: "x \<noteq> dquote"
      by blast
    from j have "drop j ?s1 = drop j ident @ segs @ ?T" by simp
    with d xz have dj: "drop j ?s1 = ident ! j # x # Z" by simp
    have 1: "quoted_segment (drop j ?s1) = None"
      unfolding dj using x by (intro quoted_segment_starts) simp
    have 2: "match_tail (drop j ?s1) = None"
      unfolding dj using kc by (intro match_tail_starts key_char_not_space key_char_not_equals)
    from 1 2 show "after_ident c0 ?s1 j = None" by (rule after_ident_None)
  qed
  have ti: "try_ident c0 ?s1 (length (takeWhile key_char ?s1)) = ?res"
  proof (cases "segs = []")
    case True
    have "takeWhile key_char ?s1 = ident"
      using ident True by (simp add: takeWhile_append2 char_facts)
    then show ?thesis using try_ident_at[OF below] at_k by simp
  next
    case False
    with shape obtain t where t: "segs = CHR ''.'' # dquote # t" by blast
    have "takeWhile key_char ?s1 = ident @ [CHR ''.'']"
      using ident t by (simp add: takeWhile_append2 char_facts)
    then have len: "length (takeWhile key_char ?s1) = Suc (length ident)" by simp
    have dS: "drop (Suc (length ident)) ?s1 = dquote # t @ ?T"
      using t by simp
    have 1: "quoted_segment (drop (Suc (length ident)) ?s1) = None"
      unfolding dS by (cases "t @ ?T") (simp_all add: quoted_segment_def char_facts)
    have 2: "match_tail (drop (Suc (length ident)) ?s1) = None"
      unfolding dS by (intro match_tail_starts) (simp_all add: char_facts)
    from 1 2 have "after_ident c0 ?s1 (Suc (length ident)) = None" by (rule after_ident_None)
    then have "try_ident c0 ?s1 (Suc (length ident)) = try_ident c0 ?s1 (length ident)"
      by simp
    with len show ?thesis using try_ident_at[OF below] at_k by simp
  qed
  have "match_line (indent @ c0 # ?s1) =
          (if newline \<in> set R then None else Some (indent, c0 # ident @ segs, q # R @ [q]))"
    using c0 by (simp add: match_line_def dw tw ti)
  then show ?thesis by simp
qed

lemma redacted_value_cases:
  "\<exists>q. (q = dquote \<or> q = squote) \<and> redacted_value self v = q # redaction_text self @ [q]"
  by (simp add: redacted_value_def Let_def)

lemma strip_quoted:
  assumes "\<not> py_isspace q"
  shows "strip (q # R @ [q]) = q # R @ [q]"
  using assms by (simp add: strip_def lstrip_def rstrip_def)

lemma suffix_quoted: "suffix [q] (q # R @ [q])"
  by (metis append_Cons suffixI)

lemma redacted_value_fixed:
  assumes "q = dquote \<or> q = squote"
  shows "redacted_value self (q # redaction_text self @ [q]) = q # redaction_text self @ [q]"
proof -
  from assms have "\<not> py_isspace q" by (auto simp: char_facts)
  then have s: "strip (q # redaction_text self @ [q]) = q # redaction_text self @ [q]"
    by (rule strip_quoted)
  from assms show ?thesis
    by (auto simp: redacted_value_def Let_def s startswith_def endswith_def suffix_quoted
        char_facts)
qed

lemma redact_line_redactedD:
  assumes "redact_line self line n = Inr (out, self')"
    and "redacted_count self' \<noteq> redacted_count self"
  shows "\<exists>indent key v.
           match_line line = Some (indent, key, v) \<and>
           (is_sensitive_key key \<or> is_sensitive_value self v = Inr True) \<and>
           out = indent @ key @ '' = '' @ redacted_value self v @ [newline] \<and>
           self' = self\<lparr>redacted_count := redacted_count self + 1,
                        redacted_lines := insert n (redacted_lines self)\<rparr>"
proof (cases "match_line line")
  case None
  with assms show ?thesis
    by (auto simp: redact_line_def Let_def split: if_splits)
next
  case (Some m)
  obtain indent key v where m: "m = (indent, key, v)" by (cases m)
  from Some m have ml: "match_line line = Some (indent, key, v)" by simp
  from assms show ?thesis
    unfolding redact_line_matched[OF ml]
    by (auto simp: ml split: sum.splits if_splits)
qed

section \<open>The key classifier: exclusion and sensitive terms\<close>

text \<open>
  C1. A key whose cleaned form (quotes removed, lower-cased) is found by one of the exclude
  patterns is never sensitive, whatever sensitive term it contains and whatever token
  pattern finds it: the exclude patterns are consulted first and end the decision.
\<close>

theorem exclude_veto:
  assumes "pattern \<in> set CONFIG_EXCLUDE_PATTERNS"
    and "re_search pattern (key_clean key)"
  shows "\<not> is_sensitive_key key"
proof -
  from assms have "list_ex (\<lambda>p. re_search p (key_clean key)) CONFIG_EXCLUDE_PATTERNS"
    unfolding list_ex_iff by blast
  then show ?thesis
    by (simp add: is_sensitive_key_def Let_def)
qed

text \<open>
  The key \<open>DB_Password_TTL\<close> contains the sensitive term \<open>password\<close> and ends in
  \<open>_ttl\<close>: it is not sensitive.
\<close>

theorem exclude_veto_witness:
  "[Lit ''_ttl'', Eol] \<in> set CONFIG_EXCLUDE_PATTERNS \<and>
   re_search [Lit ''_ttl'', Eol] (key_clean ''DB_Password_TTL'') \<and>
   sublist ''password'' (key_clean ''DB_Password_TTL'') \<and>
   \<not> is_sensitive_key ''DB_Password_TTL''"
proof -
  have h1: "[Lit ''_ttl'', Eol] \<in> set CONFIG_EXCLUDE_PATTERNS"
    by (simp add: CONFIG_EXCLUDE_PATTERNS_def)
  have h2: "re_search [Lit ''_ttl'', Eol] (key_clean ''DB_Password_TTL'')" by code_simp
  have h3: "sublist ''password'' (key_clean ''DB_Password_TTL'')" by code_simp
  from h1 h2 h3 exclude_veto[OF h1 h2] show ?thesis by simp
qed

text \<open>
  C6. A key whose cleaned form contains a sensitive term and is found by no exclude
  pattern is sensitive. \<open>api_key\<close> is sensitive; \<open>max_token_count\<close> is not, because
  the exclude pattern \<open>^max_\<close> finds it.
\<close>

theorem sensitive_term_key:
  "(\<forall>key. (\<exists>pattern \<in> SENSITIVE_PATTERNS. sublist pattern (key_clean key)) \<and>
          \<not> list_ex (\<lambda>pattern. re_search pattern (key_clean key)) CONFIG_EXCLUDE_PATTERNS
          \<longrightarrow> is_sensitive_key key) \<and>
   is_sensitive_key ''api_key'' \<and>
   re_search [Bol, Lit ''max_''] (key_clean ''max_token_count'') \<and>
   \<not> is_sensitive_key ''max_token_count''"
proof -
  have general:
    "\<forall>key. (\<exists>pattern \<in> SENSITIVE_PATTERNS. sublist pattern (key_clean key)) \<and>
          \<not> list_ex (\<lambda>pattern. re_search pattern (key_clean key)) CONFIG_EXCLUDE_PATTERNS
          \<longrightarrow> is_sensitive_key key"
    by (simp add: is_sensitive_key_def Let_def)
  have e1: "is_sensitive_key ''api_key''" by code_simp
  have e2: "re_search [Bol, Lit ''max_''] (key_clean ''max_token_count'')" by code_simp
  have e3: "\<not> is_sensitive_key ''max_token_count''" by code_simp
  from general e1 e2 e3 show ?thesis by blast
qed

text \<open>The dotted key \<open>properties."moesifKey"\<close> contains \<open>moesifkey\<close> once cleaned.\<close>

theorem sensitive_term_key_witness:
  "sublist ''moesifkey'' (key_clean moesif_key) \<and> is_sensitive_key moesif_key"
proof -
  have m: "''moesifkey'' \<in> SENSITIVE_PATTERNS" by (simp add: SENSITIVE_PATTERNS_def)
  have s: "sublist ''moesifkey'' (key_clean moesif_key)" by code_simp
  have x: "\<not> list_ex (\<lambda>pattern. re_search pattern (key_clean moesif_key))
             CONFIG_EXCLUDE_PATTERNS"
    by code_simp
  from m s have "\<exists>pattern \<in> SENSITIVE_PATTERNS. sublist pattern (key_clean moesif_key)"
    by blast
  with x sensitive_term_key have "is_sensitive_key moesif_key" by blast
  with s show ?thesis by simp
qed

section \<open>The value classifier: exemptions and normalisation\<close>

text \<open>
  C5. A value whose cleaned form (whitespace trimmed, quotes stripped) begins with
  \<open>$\<close>, or is \<open>true\<close> or \<open>false\<close> in any letter case, or is accepted by
  \<open>float\<close>, is not sensitive, for every configuration and so also with value checks
  enabled: the value patterns are not consulted for it.
\<close>

theorem value_exemptions:
  assumes "startswith (clean_value v) ''$'' \<or> lower (clean_value v) = ''true'' \<or>
           lower (clean_value v) = ''false'' \<or> py_float (clean_value v) = Inr ()"
  shows "is_sensitive_value self v = Inr False"
  using assms by (auto simp: is_sensitive_value_def Let_def)

text \<open>
  A quoted run of 32 digits is a number, and the last value pattern (32 or more letters
  and digits) finds it; with value checks enabled it is still not sensitive.
\<close>

theorem value_exemptions_witness:
  "check_values default_redactor \<and>
   py_float (clean_value long_digits) = Inr () \<and>
   re_search [Bol, Rep is_alnum 32 None, Eol] (clean_value long_digits) \<and>
   is_sensitive_value default_redactor long_digits = Inr False"
proof -
  have c: "check_values default_redactor" by code_simp
  have f: "py_float (clean_value long_digits) = Inr ()" by code_simp
  have p: "re_search [Bol, Rep is_alnum 32 None, Eol] (clean_value long_digits)"
    by code_simp
  from f have "startswith (clean_value long_digits) ''$'' \<or>
      lower (clean_value long_digits) = ''true'' \<or>
      lower (clean_value long_digits) = ''false'' \<or>
      py_float (clean_value long_digits) = Inr ()" by simp
  from c f p value_exemptions[OF this, of default_redactor] show ?thesis by simp
qed

text \<open>
  C8, as the code has it. The cleaned form of a value is its whitespace-trimmed form
  without any of its leading and trailing quote characters, single or double: what is
  removed on either side consists of quote characters only, and what remains neither
  begins nor ends with one. Every layer of quotes goes, not one.
\<close>

theorem clean_value_strips_every_quote:
  "(\<exists>p s. strip v = p @ clean_value v @ s \<and>
           set p \<subseteq> {dquote, squote} \<and> set s \<subseteq> {dquote, squote}) \<and>
   (clean_value v = [] \<or>
    (hd (clean_value v) \<notin> {dquote, squote} \<and> last (clean_value v) \<notin> {dquote, squote}))"
  using strip_chars_decomp[of "strip v" "[dquote, squote]"]
        strip_chars_ends[of "[dquote, squote]" "strip v"]
  by (auto simp: clean_value_def)

text \<open>Two layers of mixed quotes around \<open>x\<close>, with blanks outside: \<open>x\<close> remains.\<close>

theorem clean_value_strips_every_quote_witness:
  "clean_value (''  '' @ dq (sq ''x'') @ '' '') = ''x'' \<and>
   (\<exists>p s. strip (''  '' @ dq (sq ''x'') @ '' '') = p @ ''x'' @ s \<and>
           set p \<subseteq> {dquote, squote} \<and> set s \<subseteq> {dquote, squote})"
proof -
  have e: "clean_value (''  '' @ dq (sq ''x'') @ '' '') = ''x''" by code_simp
  from clean_value_strips_every_quote[of "''  '' @ dq (sq ''x'') @ '' ''"] e
  show ?thesis by simp
qed

text \<open>
  C8, as the claim has it, fails: for the value \<open>''x''\<close> (two single quotes on either
  side) the cleaned form is \<open>x\<close>, not \<open>'x'\<close>.
\<close>

theorem one_quote_layer_counterexample:
  "clean_value [squote, squote, CHR ''x'', squote, squote] = ''x'' \<and>
   clean_value [squote, squote, CHR ''x'', squote, squote] \<noteq> [squote, CHR ''x'', squote]"
  by code_simp

section \<open>The line rewriter: comments, pass-through, totality, layout\<close>

text \<open>
  C7. A line whose left-trimmed form starts with \<open>#\<close> is emitted as the empty string
  when comment removal is configured and unchanged otherwise, whatever
  \<open>preserve_commented\<close> says; the object, and with it the count and the set of
  modified lines, is the one before the call.
\<close>

theorem comment_lines:
  assumes "startswith (lstrip line) ''#''"
  shows "redact_line self line n = Inr (if remove_comments self then [] else line, self)"
  using assms by (rule redact_line_comment)

theorem comment_lines_witness:
  "startswith (lstrip comment_line) ''#'' \<and>
   redact_line default_redactor comment_line 4 = Inr (comment_line, default_redactor) \<and>
   redact_line (init ''***REDACTED***'' True False False) comment_line 4 =
     Inr (comment_line, init ''***REDACTED***'' True False False) \<and>
   redact_line (init ''***REDACTED***'' True True True) comment_line 4 =
     Inr ([], init ''***REDACTED***'' True True True)"
proof -
  have h: "startswith (lstrip comment_line) ''#''" by code_simp
  have r1: "\<not> remove_comments default_redactor" by code_simp
  have r2: "\<not> remove_comments (init ''***REDACTED***'' True False False)" by code_simp
  have r3: "remove_comments (init ''***REDACTED***'' True True True)" by code_simp
  from h r1 r2 r3
    comment_lines[OF h, of default_redactor 4]
    comment_lines[OF h, of "init ''***REDACTED***'' True False False" 4]
    comment_lines[OF h, of "init ''***REDACTED***'' True True True" 4]
  show ?thesis by simp
qed

text \<open>
  C4. A blank line, a comment line when comment removal is off, a line that is no
  comment and does not match the assignment pattern, and an assignment line whose key
  and value are both classified as not sensitive, are returned as they came, and the
  object (count and modified lines) is unchanged.
\<close>

theorem pass_through:
  assumes "lstrip line = [] \<or>
           (startswith (lstrip line) ''#'' \<and> \<not> remove_comments self) \<or>
           (match_line line = None \<and> \<not> startswith (lstrip line) ''#'') \<or>
           (\<exists>indent key v. match_line line = Some (indent, key, v) \<and>
              \<not> is_sensitive_key key \<and> is_sensitive_value self v = Inr False)"
  shows "redact_line self line n = Inr (line, self)"
proof -
  consider (blank) "lstrip line = []"
    | (comment) "startswith (lstrip line) ''#''" "\<not> remove_comments self"
    | (unrecognized) "match_line line = None" "\<not> startswith (lstrip line) ''#''"
    | (plain) indent key v where "match_line line = Some (indent, key, v)"
        "\<not> is_sensitive_key key" "is_sensitive_value self v = Inr False"
    using assms by auto
  then show ?thesis
  proof cases
    case blank
    then show ?thesis by (rule redact_line_blank)
  next
    case comment
    then show ?thesis by (simp add: redact_line_comment)
  next
    case unrecognized
    then show ?thesis by (rule redact_line_unmatched)
  next
    case plain
    then show ?thesis by (simp add: redact_line_matched)
  qed
qed

text \<open>
  A table header and the assignment \<open>max_retry_count = 5\<close> pass through unchanged,
  with a count of zero.
\<close>

theorem pass_through_witness:
  "match_line ''[server]'' = None \<and>
   redact_line default_redactor ''[server]'' 1 = Inr (''[server]'', default_redactor) \<and>
   match_line ''max_retry_count = 5'' = Some ([], ''max_retry_count'', ''5'') \<and>
   redact_line default_redactor ''max_retry_count = 5'' 2 =
     Inr (''max_retry_count = 5'', default_redactor) \<and>
   redacted_count default_redactor = 0"
proof -
  have a1: "match_line ''[server]'' = None" by code_simp
  have a2: "\<not> startswith (lstrip ''[server]'') ''#''" by code_simp
  have b1: "match_line ''max_retry_count = 5'' = Some ([], ''max_retry_count'', ''5'')"
    by code_simp
  have b2: "\<not> is_sensitive_key ''max_retry_count''" by code_simp
  have b3: "is_sensitive_value default_redactor ''5'' = Inr False" by code_simp
  have c: "redacted_count default_redactor = 0" by code_simp
  from a1 a2 have r1: "redact_line default_redactor ''[server]'' 1 =
      Inr (''[server]'', default_redactor)"
    by (intro pass_through) simp
  from b1 b2 b3 have r2: "redact_line default_redactor ''max_retry_count = 5'' 2 =
      Inr (''max_retry_count = 5'', default_redactor)"
    by (intro pass_through) simp
  from a1 b1 r1 r2 c show ?thesis by simp
qed

text \<open>
  C9. For every object, line and line number \<open>redact_line\<close> returns a line (and the
  object after the call): the only exception raised on the way, the \<open>ValueError\<close> of
  \<open>float\<close>, is caught where it is raised.
\<close>

theorem redact_line_total: "\<exists>out self'. redact_line self line n = Inr (out, self')"
proof -
  obtain b where "is_sensitive_value self (snd (snd (the (match_line line)))) = Inr b"
    using is_sensitive_value_total by blast
  then show ?thesis
    by (auto simp: redact_line_def Let_def split: option.splits)
qed

text \<open>A line of stray punctuation with an unterminated string comes back as it is.\<close>

theorem redact_line_total_witness:
  "(\<exists>out self'. redact_line default_redactor malformed_line 3 = Inr (out, self')) \<and>
   redact_line default_redactor malformed_line 3 = Inr (malformed_line, default_redactor)"
proof -
  have "redact_line default_redactor malformed_line 3 = Inr (malformed_line, default_redactor)"
    by code_simp
  with redact_line_total[of default_redactor malformed_line 3] show ?thesis by simp
qed

text \<open>
  C10. Whenever \<open>redact_line\<close> redacts (the count changes), the line matched the
  assignment pattern and the emitted line is the indentation, the key, one space, \<open>=\<close>,
  one space, the replacement value and a newline, in this order and with nothing else;
  so it ends in a newline whether or not the input did. The count goes up by one and the
  line number joins the modified lines.
\<close>

theorem redacted_line_layout:
  assumes "redact_line self line n = Inr (out, self')"
    and "redacted_count self' \<noteq> redacted_count self"
  shows "\<exists>indent key v.
           match_line line = Some (indent, key, v) \<and>
           out = indent @ key @ '' = '' @ redacted_value self v @ [newline] \<and>
           last out = newline \<and>
           redacted_count self' = redacted_count self + 1 \<and>
           redacted_lines self' = insert n (redacted_lines self)"
proof -
  from redact_line_redactedD[OF assms] obtain indent key v where
    ml: "match_line line = Some (indent, key, v)" and
    out: "out = indent @ key @ '' = '' @ redacted_value self v @ [newline]" and
    self': "self' = self\<lparr>redacted_count := redacted_count self + 1,
                        redacted_lines := insert n (redacted_lines self)\<rparr>" by blast
  from out have "last out = newline" by simp
  with ml out self' show ?thesis by simp
qed

text \<open>
  An indented line without blanks around \<open>=\<close> and without a final newline is emitted
  with one blank on each side of \<open>=\<close> and with a newline.
\<close>

theorem redacted_line_layout_witness:
  "redact_line default_redactor tight_line 8 =
     Inr (''   db.password = '' @ sq ''***REDACTED***'' @ [newline],
          default_redactor\<lparr>redacted_count := 1, redacted_lines := {8}\<rparr>) \<and>
   last tight_line \<noteq> newline \<and>
   match_line tight_line = Some (''   '', ''db.password'', sq ''hunter2'') \<and>
   ''   db.password = '' @ sq ''***REDACTED***'' @ [newline] =
     ''   '' @ ''db.password'' @ '' = '' @ redacted_value default_redactor (sq ''hunter2'') @
     [newline]"
proof -
  let ?out = "''   db.password = '' @ sq ''***REDACTED***'' @ [newline]"
  let ?self' = "default_redactor\<lparr>redacted_count := 1, redacted_lines := {8}\<rparr>"
  have first: "redact_line default_redactor tight_line 8 = Inr (?out, ?self')" by code_simp
  have red: "redacted_count ?self' \<noteq> redacted_count default_redactor" by code_simp
  have l: "last tight_line \<noteq> newline" by code_simp
  have ml: "match_line tight_line = Some (''   '', ''db.password'', sq ''hunter2'')"
    by code_simp
  from redacted_line_layout[OF first red] obtain indent key v where
    a: "match_line tight_line = Some (indent, key, v)" and
    b: "?out = indent @ key @ '' = '' @ redacted_value default_redactor v @ [newline]"
    by blast
  from a ml have "indent = ''   ''" "key = ''db.password''" "v = sq ''hunter2''" by simp_all
  with b have "?out = ''   '' @ ''db.password'' @ '' = '' @
      redacted_value default_redactor (sq ''hunter2'') @ [newline]" by simp
  with first l ml show ?thesis by blast
qed

section \<open>The line rewriter: quote style\<close>

text \<open>
  C3. When an assignment line is redacted because its key or its value is sensitive, the
  placeholder is wrapped in double quotes if the whitespace-trimmed value starts and ends
  with a double quote, in single quotes if it starts and ends with a single quote, and in
  double quotes otherwise. With the default object, \<open>token = "abc123"\<close> becomes
  \<open>token = "***REDACTED***"\<close>, \<open>token = 'abc123'\<close> becomes
  \<open>token = '***REDACTED***'\<close> and \<open>token = abc123\<close> becomes
  \<open>token = "***REDACTED***"\<close>, each emitted with its newline, for the input line
  with and without a final newline.
\<close>

theorem quote_style_preserved:
  "(\<forall>self line n indent key v.
      match_line line = Some (indent, key, v) \<and>
      (is_sensitive_key key \<or> is_sensitive_value self v = Inr True) \<longrightarrow>
      (\<exists>self'. redact_line self line n =
         Inr (indent @ key @ '' = '' @
              (if startswith (strip v) [dquote] \<and> endswith (strip v) [dquote]
               then dq (redaction_text self)
               else if startswith (strip v) [squote] \<and> endswith (strip v) [squote]
               then sq (redaction_text self)
               else dq (redaction_text self)) @ [newline], self'))) \<and>
   (\<forall>eol \<in> {[], [newline]}.
      (\<exists>self'. redact_line default_redactor (''token = '' @ dq ''abc123'' @ eol) 1 =
         Inr (''token = '' @ dq ''***REDACTED***'' @ [newline], self')) \<and>
      (\<exists>self'. redact_line default_redactor (''token = '' @ sq ''abc123'' @ eol) 1 =
         Inr (''token = '' @ sq ''***REDACTED***'' @ [newline], self')) \<and>
      (\<exists>self'. redact_line default_redactor (''token = abc123'' @ eol) 1 =
         Inr (''token = '' @ dq ''***REDACTED***'' @ [newline], self')))"
proof -
  have general: "\<forall>self line n indent key v.
      match_line line = Some (indent, key, v) \<and>
      (is_sensitive_key key \<or> is_sensitive_value self v = Inr True) \<longrightarrow>
      (\<exists>self'. redact_line self line n =
         Inr (indent @ key @ '' = '' @
              (if startswith (strip v) [dquote] \<and> endswith (strip v) [dquote]
               then dq (redaction_text self)
               else if startswith (strip v) [squote] \<and> endswith (strip v) [squote]
               then sq (redaction_text self)
               else dq (redaction_text self)) @ [newline], self'))"
    by (auto simp: redact_line_sensitive redacted_value_def Let_def dq_def sq_def)
  let ?s = "default_redactor\<lparr>redacted_count := 1, redacted_lines := {1}\<rparr>"
  have d1: "redact_line default_redactor (''token = '' @ dq ''abc123'' @ []) 1 =
         Inr (''token = '' @ dq ''***REDACTED***'' @ [newline], ?s)" by code_simp
  have d2: "redact_line default_redactor (''token = '' @ dq ''abc123'' @ [newline]) 1 =
         Inr (''token = '' @ dq ''***REDACTED***'' @ [newline], ?s)" by code_simp
  have s1: "redact_line default_redactor (''token = '' @ sq ''abc123'' @ []) 1 =
         Inr (''token = '' @ sq ''***REDACTED***'' @ [newline], ?s)" by code_simp
  have s2: "redact_line default_redactor (''token = '' @ sq ''abc123'' @ [newline]) 1 =
         Inr (''token = '' @ sq ''***REDACTED***'' @ [newline], ?s)" by code_simp
  have u1: "redact_line default_redactor (''token = abc123'' @ []) 1 =
         Inr (''token = '' @ dq ''***REDACTED***'' @ [newline], ?s)" by code_simp
  have u2: "redact_line default_redactor (''token = abc123'' @ [newline]) 1 =
         Inr (''token = '' @ dq ''***REDACTED***'' @ [newline], ?s)" by code_simp
  from d1 d2 s1 s2 u1 u2 have examples: "\<forall>eol \<in> {[], [newline]}.
      (\<exists>self'. redact_line default_redactor (''token = '' @ dq ''abc123'' @ eol) 1 =
         Inr (''token = '' @ dq ''***REDACTED***'' @ [newline], self')) \<and>
      (\<exists>self'. redact_line default_redactor (''token = '' @ sq ''abc123'' @ eol) 1 =
         Inr (''token = '' @ sq ''***REDACTED***'' @ [newline], self')) \<and>
      (\<exists>self'. redact_line default_redactor (''token = abc123'' @ eol) 1 =
         Inr (''token = '' @ dq ''***REDACTED***'' @ [newline], self'))"
    by blast
  from general examples show ?thesis by (rule conjI)
qed

text \<open>A value that opens with a double quote and closes with a single one gets double quotes.\<close>

theorem quote_style_preserved_witness:
  "match_line (''secret = '' @ [dquote] @ ''abc'' @ [squote]) =
     Some ([], ''secret'', [dquote] @ ''abc'' @ [squote]) \<and>
   is_sensitive_key ''secret'' \<and>
   (\<exists>self'. redact_line default_redactor (''secret = '' @ [dquote] @ ''abc'' @ [squote]) 2 =
      Inr (''secret = '' @ dq ''***REDACTED***'' @ [newline], self'))"
proof -
  let ?line = "''secret = '' @ [dquote] @ ''abc'' @ [squote]"
  let ?v = "[dquote] @ ''abc'' @ [squote]"
  have ml: "match_line ?line = Some ([], ''secret'', ?v)" by code_simp
  have k: "is_sensitive_key ''secret''" by code_simp
  have style:
    "[] @ ''secret'' @ '' = '' @
     (if startswith (strip ?v) [dquote] \<and> endswith (strip ?v) [dquote]
      then dq (redaction_text default_redactor)
      else if startswith (strip ?v) [squote] \<and> endswith (strip ?v) [squote]
      then sq (redaction_text default_redactor)
      else dq (redaction_text default_redactor)) @ [newline] =
     ''secret = '' @ dq ''***REDACTED***'' @ [newline]"
    by code_simp
  from quote_style_preserved ml k
  have "\<exists>self'. redact_line default_redactor ?line 2 =
      Inr ([] @ ''secret'' @ '' = '' @
     (if startswith (strip ?v) [dquote] \<and> endswith (strip ?v) [dquote]
      then dq (redaction_text default_redactor)
      else if startswith (strip ?v) [squote] \<and> endswith (strip ?v) [squote]
      then sq (redaction_text default_redactor)
      else dq (redaction_text default_redactor)) @ [newline], self')"
    by blast
  then have "\<exists>self'. redact_line default_redactor ?line 2 =
      Inr (''secret = '' @ dq ''***REDACTED***'' @ [newline], self')"
    by (simp only: style)
  with ml k show ?thesis by blast
qed

section \<open>A second pass over the emitted line\<close>

text \<open>
  C2, as the code has it. Let a line be redacted, and let the emitted string be given
  back whole, as one line, to an object with the same placeholder text. Then the second
  call emits that string again, unchanged. If the placeholder contains no newline, the
  second call counts the line again (count plus one, line number recorded) exactly when
  the key is sensitive or the quoted placeholder is itself classified as a sensitive
  value, and leaves the object as it was otherwise. If the placeholder contains a
  newline, the emitted string does not match the assignment pattern any more and the
  second call leaves the object as it was, whatever the key.
\<close>

theorem second_pass:
  assumes first: "redact_line self line n = Inr (out, self')"
    and redacted: "redacted_count self' \<noteq> redacted_count self"
    and same_text: "redaction_text self2 = redaction_text self"
  shows "\<exists>indent key v.
           match_line line = Some (indent, key, v) \<and>
           redact_line self2 out m =
             Inr (out,
                  if newline \<notin> set (redaction_text self) \<and>
                     (is_sensitive_key key \<or>
                      is_sensitive_value self2 (redacted_value self v) = Inr True)
                  then self2\<lparr>redacted_count := redacted_count self2 + 1,
                             redacted_lines := insert m (redacted_lines self2)\<rparr>
                  else self2)"
proof -
  from redact_line_redactedD[OF first redacted] obtain indent key v where
    ml: "match_line line = Some (indent, key, v)" and
    out: "out = indent @ key @ '' = '' @ redacted_value self v @ [newline]" by blast
  from match_line_shape[OF ml] obtain c0 ident segs s rest where
    key: "key = c0 # ident @ segs" and c0: "key_start c0" and
    ident: "\<forall>c \<in> set ident. key_char c" and indent: "\<forall>c \<in> set indent. py_isspace c" and
    qs: "quoted_segments s = (segs, rest)" by blast
  from redacted_value_cases obtain q where q: "q = dquote \<or> q = squote" and
    rv: "redacted_value self v = q # redaction_text self @ [q]" by blast
  let ?R = "redaction_text self"
  have out': "out = indent @ (c0 # ident @ segs) @ '' = '' @ q # ?R @ [q, newline]"
    using out key rv by simp
  have m2: "match_line out =
      (if newline \<in> set ?R then None else Some (indent, key, q # ?R @ [q]))"
    unfolding out' key by (rule match_line_rebuilt[OF c0 ident indent qs q])
  have stable: "redacted_value self2 (q # ?R @ [q]) = q # ?R @ [q]"
    using redacted_value_fixed[OF q, of self2] same_text by simp
  have again: "indent @ key @ '' = '' @ redacted_value self2 (q # ?R @ [q]) @ [newline] = out"
    using out rv stable by simp
  let ?self2' = "self2\<lparr>redacted_count := redacted_count self2 + 1,
                          redacted_lines := insert m (redacted_lines self2)\<rparr>"
  let ?again = "is_sensitive_key key \<or>
                is_sensitive_value self2 (redacted_value self v) = Inr True"
  have "redact_line self2 out m =
          Inr (out, if newline \<notin> set ?R \<and> ?again then ?self2' else self2)"
  proof (cases "newline \<in> set ?R")
    case True
    with m2 have none: "match_line out = None" by simp
    have "lstrip out = c0 # ident @ segs @ '' = '' @ q # ?R @ [q, newline]"
      unfolding out' lstrip_def using indent key_start_not_space[OF c0]
      by (simp add: dropWhile_append2)
    then have "\<not> startswith (lstrip out) ''#''"
      using key_start_not_hash[OF c0] by (simp add: startswith_def)
    with none have "redact_line self2 out m = Inr (out, self2)"
      by (rule redact_line_unmatched)
    with True show ?thesis by simp
  next
    case False
    with m2 have some: "match_line out = Some (indent, key, q # ?R @ [q])" by simp
    show ?thesis
    proof (cases ?again)
      case True
      then have "is_sensitive_key key \<or>
                 is_sensitive_value self2 (q # ?R @ [q]) = Inr True"
        by (simp only: rv)
      from redact_line_sensitive[OF some this, of m]
      have "redact_line self2 out m = Inr (out, ?self2')"
        by (simp only: again)
      with True False show ?thesis by simp
    next
      case no: False
      then have k: "\<not> is_sensitive_key key" by simp
      obtain b where b: "is_sensitive_value self2 (q # ?R @ [q]) = Inr b"
        using is_sensitive_value_total by blast
      with no rv have "\<not> b" by auto
      with b have "is_sensitive_value self2 (q # ?R @ [q]) = Inr False" by simp
      with k have "redact_line self2 out m = Inr (out, self2)"
        by (simp add: redact_line_matched[OF some])
      with no show ?thesis by simp
    qed
  qed
  with ml show ?thesis by blast
qed

text \<open>
  Three redacted lines given back whole. A line redacted for its value only (a JWT-shaped
  value under the key \<open>session\<close>): the second pass changes nothing and counts
  nothing. A line with the sensitive key \<open>api_key\<close>: the second pass emits the same
  text and counts the line again. A line with the sensitive key \<open>password\<close> under a
  placeholder that contains a newline: the emitted string no longer matches the
  assignment pattern, and the second pass changes nothing and counts nothing.
\<close>

theorem second_pass_witness:
  "redact_line default_redactor jwt_line 5 =
     Inr (''session = '' @ dq ''***REDACTED***'' @ [newline],
          default_redactor\<lparr>redacted_count := 1, redacted_lines := {5}\<rparr>) \<and>
   redact_line default_redactor (''session = '' @ dq ''***REDACTED***'' @ [newline]) 5 =
     Inr (''session = '' @ dq ''***REDACTED***'' @ [newline], default_redactor) \<and>
   is_sensitive_key ''api_key'' \<and>
   redact_line default_redactor (''api_key = abc'' @ [newline]) 6 =
     Inr (''api_key = '' @ dq ''***REDACTED***'' @ [newline],
          default_redactor\<lparr>redacted_count := 1, redacted_lines := {6}\<rparr>) \<and>
   redact_line default_redactor (''api_key = '' @ dq ''***REDACTED***'' @ [newline]) 6 =
     Inr (''api_key = '' @ dq ''***REDACTED***'' @ [newline],
          default_redactor\<lparr>redacted_count := 1, redacted_lines := {6}\<rparr>) \<and>
   is_sensitive_key ''password'' \<and>
   newline \<in> set (redaction_text two_line_redactor) \<and>
   redact_line two_line_redactor password_line 7 =
     Inr (''password = '' @ dq (''x'' @ [newline] @ ''y'') @ [newline],
          two_line_redactor\<lparr>redacted_count := 1, redacted_lines := {7}\<rparr>) \<and>
   redact_line two_line_redactor
       (''password = '' @ dq (''x'' @ [newline] @ ''y'') @ [newline]) 7 =
     Inr (''password = '' @ dq (''x'' @ [newline] @ ''y'') @ [newline], two_line_redactor)"
proof -
  let ?out = "''session = '' @ dq ''***REDACTED***'' @ [newline]"
  let ?self' = "default_redactor\<lparr>redacted_count := 1, redacted_lines := {5}\<rparr>"
  let ?v = "''eyJhbGciOi.eyJzdWIi.SflKxw''"
  have first: "redact_line default_redactor jwt_line 5 = Inr (?out, ?self')" by code_simp
  have red: "redacted_count ?self' \<noteq> redacted_count default_redactor" by code_simp
  have ml: "match_line jwt_line = Some ([], ''session'', ?v)" by code_simp
  have nk: "\<not> is_sensitive_key ''session''" by code_simp
  have nv: "is_sensitive_value default_redactor (redacted_value default_redactor ?v) =
            Inr False" by code_simp
  from second_pass[OF first red refl, where m = 5] obtain indent key v where
    a: "match_line jwt_line = Some (indent, key, v)" and
    b: "redact_line default_redactor ?out 5 =
          Inr (?out,
               if newline \<notin> set (redaction_text default_redactor) \<and>
                  (is_sensitive_key key \<or>
                   is_sensitive_value default_redactor (redacted_value default_redactor v) =
                   Inr True)
               then default_redactor\<lparr>redacted_count := redacted_count default_redactor + 1,
                      redacted_lines := insert 5 (redacted_lines default_redactor)\<rparr>
               else default_redactor)"
    by blast
  from a ml have "key = ''session''" "v = ?v" by simp_all
  with b nk nv have value_only:
    "redact_line default_redactor ?out 5 = Inr (?out, default_redactor)"
    by simp

  let ?kline = "''api_key = abc'' @ [newline]"
  let ?kout = "''api_key = '' @ dq ''***REDACTED***'' @ [newline]"
  let ?kself' = "default_redactor\<lparr>redacted_count := 1, redacted_lines := {6}\<rparr>"
  have kfirst: "redact_line default_redactor ?kline 6 = Inr (?kout, ?kself')" by code_simp
  have kred: "redacted_count ?kself' \<noteq> redacted_count default_redactor" by code_simp
  have kml: "match_line ?kline = Some ([], ''api_key'', ''abc'')" by code_simp
  have kk: "is_sensitive_key ''api_key''" by code_simp
  have knl: "newline \<notin> set (redaction_text default_redactor)" by code_simp
  have kst: "default_redactor\<lparr>redacted_count := redacted_count default_redactor + 1,
                      redacted_lines := insert 6 (redacted_lines default_redactor)\<rparr> = ?kself'"
    by code_simp
  from second_pass[OF kfirst kred refl, where m = 6] obtain indent key v where
    ka: "match_line ?kline = Some (indent, key, v)" and
    kb: "redact_line default_redactor ?kout 6 =
          Inr (?kout,
               if newline \<notin> set (redaction_text default_redactor) \<and>
                  (is_sensitive_key key \<or>
                   is_sensitive_value default_redactor (redacted_value default_redactor v) =
                   Inr True)
               then default_redactor\<lparr>redacted_count := redacted_count default_redactor + 1,
                      redacted_lines := insert 6 (redacted_lines default_redactor)\<rparr>
               else default_redactor)"
    by blast
  from ka kml have "key = ''api_key''" by simp
  with kb kk knl have "redact_line default_redactor ?kout 6 =
      Inr (?kout, default_redactor\<lparr>redacted_count := redacted_count default_redactor + 1,
                      redacted_lines := insert 6 (redacted_lines default_redactor)\<rparr>)"
    by simp
  then have key_again: "redact_line default_redactor ?kout 6 = Inr (?kout, ?kself')"
    by (simp only: kst)

  let ?nout = "''password = '' @ dq (''x'' @ [newline] @ ''y'') @ [newline]"
  let ?nself' = "two_line_redactor\<lparr>redacted_count := 1, redacted_lines := {7}\<rparr>"
  have nfirst: "redact_line two_line_redactor password_line 7 = Inr (?nout, ?nself')"
    by code_simp
  have nred: "redacted_count ?nself' \<noteq> redacted_count two_line_redactor" by code_simp
  have nk2: "is_sensitive_key ''password''" by code_simp
  have nnl: "newline \<in> set (redaction_text two_line_redactor)" by code_simp
  from second_pass[OF nfirst nred refl, where m = 7] obtain indent key v where
    nb: "redact_line two_line_redactor ?nout 7 =
          Inr (?nout,
               if newline \<notin> set (redaction_text two_line_redactor) \<and>
                  (is_sensitive_key key \<or>
                   is_sensitive_value two_line_redactor (redacted_value two_line_redactor v) =
                   Inr True)
               then two_line_redactor\<lparr>redacted_count := redacted_count two_line_redactor + 1,
                      redacted_lines := insert 7 (redacted_lines two_line_redactor)\<rparr>
               else two_line_redactor)"
    by blast
  with nnl have two_lines: "redact_line two_line_redactor ?nout 7 = Inr (?nout, two_line_redactor)"
    by simp
  from first value_only kk kfirst key_again nk2 nnl nfirst two_lines show ?thesis
    by (intro conjI)
qed

text \<open>
  C2, as the claim has it, fails: \<open>password = "x"\<close> is redacted on the first pass,
  and a fresh default object given the emitted line redacts it again, ending with a
  count of one where the claim has zero.
\<close>

theorem zero_redactions_counterexample:
  "redacted_count default_redactor = 0 \<and>
   redact_line default_redactor password_line 1 =
     Inr (''password = '' @ dq ''***REDACTED***'' @ [newline],
          default_redactor\<lparr>redacted_count := 1, redacted_lines := {1}\<rparr>) \<and>
   redact_line default_redactor (''password = '' @ dq ''***REDACTED***'' @ [newline]) 1 =
     Inr (''password = '' @ dq ''***REDACTED***'' @ [newline],
          default_redactor\<lparr>redacted_count := 1, redacted_lines := {1}\<rparr>)"
  by code_simp

end
